theory Spec2Isabelle
  imports Main
begin

section \<open>Strings\<close>

text \<open>
  A JavaScript string is modelled as the list of its code units, each an Isabelle
  \<^typ>\<open>char\<close> (so the model covers the strings whose code units are below 256).
  The three built-ins the source calls on strings and arrays follow ECMAScript.
\<close>

text \<open>\<^verbatim>\<open>s.split(sep)\<close> for a one-character separator: never the empty array.\<close>

fun js_split :: "char \<Rightarrow> string \<Rightarrow> string list" where
  "js_split sep [] = [[]]"
| "js_split sep (x # xs) =
     (if x = sep then [] # js_split sep xs
      else (case js_split sep xs of
              [] \<Rightarrow> [[x]]
            | seg # segs \<Rightarrow> (x # seg) # segs))"

text \<open>\<^verbatim>\<open>arr.join(sep)\<close> for a one-character separator.\<close>

fun js_join :: "char \<Rightarrow> string list \<Rightarrow> string" where
  "js_join sep [] = []"
| "js_join sep [seg] = seg"
| "js_join sep (seg # segs) = seg @ sep # js_join sep segs"

text \<open>
  \<^verbatim>\<open>s.trim()\<close>: the white space and line terminators of ECMAScript among the
  code units below 256 are TAB, LF, VT, FF, CR, SP and NBSP.
\<close>

definition isWhiteSpace :: "char \<Rightarrow> bool" where
  "isWhiteSpace ch \<longleftrightarrow> (of_char ch :: nat) \<in> {9, 10, 11, 12, 13, 32, 160}"

definition js_trim :: "string \<Rightarrow> string" where
  "js_trim s = rev (dropWhile isWhiteSpace (rev (dropWhile isWhiteSpace s)))"

section \<open>The tree cache\<close>

text \<open>
  \<^verbatim>\<open>tree_cache.js\<close> and \<^verbatim>\<open>note_short.js\<close> are outside this development, so
  the two operations \<^verbatim>\<open>tree.js\<close> calls on them are parameters: \<open>getNote c id\<close> is
  what \<^verbatim>\<open>await treeCache.getNote(id)\<close> resolves to (\<open>None\<close> for a falsy value) and
  \<open>getParentNotes c n\<close> is what \<^verbatim>\<open>n.getParentNotes()\<close> returns, in its order.
\<close>

record noteShort =
  noteId :: string
  title :: string

record treeCache =
  getNote :: "string \<Rightarrow> noteShort option"
  getParentNotes :: "noteShort \<Rightarrow> noteShort list"

text \<open>
  Every \<^verbatim>\<open>return;\<close> of the source is a value that names the place and carries what
  the source logs there.
\<close>

datatype error =
    EmptyNotePath
  | CantFindNote string
  | NoParentsFound string
  | CantFindParents string

section \<open>\<^verbatim>\<open>getSomeNotePath\<close>\<close>

text \<open>
  The loop of \<^verbatim>\<open>getSomeNotePath\<close> (tree.js): it has no bound, so the model is a partial
  function in the option monad, where \<open>None\<close> is "does not return". The argument of
  \<^verbatim>\<open>utils.assertArguments(note)\<close> is an object, which is truthy, so that call has no part
  in the model.
\<close>

partial_function (option) getSomeNotePath_loop ::
  "treeCache \<Rightarrow> noteShort \<Rightarrow> string list \<Rightarrow> (error + string) option" where
  "getSomeNotePath_loop c cur path =
     (if noteId cur \<noteq> ''root'' then
        (case getParentNotes c cur of
           [] \<Rightarrow> Some (Inl (CantFindParents (noteId cur)))
         | p # ps \<Rightarrow> getSomeNotePath_loop c p (path @ [noteId cur]))
      else Some (Inr (js_join CHR ''/'' (rev (path @ [''root''])))))"

declare getSomeNotePath_loop.simps [code]

definition getSomeNotePath :: "treeCache \<Rightarrow> noteShort \<Rightarrow> (error + string) option" where
  "getSomeNotePath c n = getSomeNotePath_loop c n []"

section \<open>\<^verbatim>\<open>resolveNotePathToSegments\<close> and \<^verbatim>\<open>resolveNotePath\<close>\<close>

text \<open>
  Modelled from the spec: \<^verbatim>\<open>utils.assertArguments\<close>, whose file \<^verbatim>\<open>utils.js\<close> is outside
  this development. By section 7 of the specification the core never raises a fatal error
  for bad input data: a falsy argument is reported on the console and the call returns.
\<close>

definition assertArguments :: "string \<Rightarrow> unit" where
  "assertArguments arg = ()"

text \<open>
  The \<^verbatim>\<open>while (true)\<close> loop of \<^verbatim>\<open>resolveNotePathToSegments\<close>. The first argument
  after the cache is what is left of \<^verbatim>\<open>path\<close> from index \<^verbatim>\<open>i\<close> on, so the loop is a
  recursion on that list. The flag \<^verbatim>\<open>logErrors\<close> only gates two log lines and is left
  out. A call of \<^verbatim>\<open>getSomeNotePath\<close> that does not return leaves the loop without a
  result as well.
\<close>

fun resolveNotePathToSegments_loop ::
  "treeCache \<Rightarrow> string list \<Rightarrow> string option \<Rightarrow> string list \<Rightarrow> (error + string list) option" where
  "resolveNotePathToSegments_loop c [] childNoteId effectivePath =
     Some (Inr (rev effectivePath))"
| "resolveNotePathToSegments_loop c (parentNoteId # rest) None effectivePath =
     resolveNotePathToSegments_loop c rest (Some parentNoteId) (effectivePath @ [parentNoteId])"
| "resolveNotePathToSegments_loop c (parentNoteId # rest) (Some childNoteId) effectivePath =
     (case getNote c childNoteId of
        None \<Rightarrow> Some (Inl (CantFindNote childNoteId))
      | Some child \<Rightarrow>
          (let parents = getParentNotes c child in
           if parents = [] then Some (Inl (NoParentsFound childNoteId))
           else if \<not> list_ex (\<lambda>p. noteId p = parentNoteId) parents then
             (case getSomeNotePath c (hd parents) of
                None \<Rightarrow> None
              | Some (Inl e) \<Rightarrow> Some (Inr (rev effectivePath))
              | Some (Inr someNotePath) \<Rightarrow>
                  (if someNotePath \<noteq> [] then
                     Some (Inr (rev (effectivePath @ rev (js_split CHR ''/'' someNotePath))))
                   else Some (Inr (rev effectivePath))))
           else resolveNotePathToSegments_loop c rest (Some parentNoteId)
                  (effectivePath @ [parentNoteId])))"

definition resolveNotePathToSegments ::
  "treeCache \<Rightarrow> string \<Rightarrow> (error + string list) option" where
  "resolveNotePathToSegments c notePath0 =
     (let u = assertArguments notePath0;
          notePath = js_trim (hd (js_split CHR ''-'' notePath0))
      in if length notePath = 0 then Some (Inl EmptyNotePath)
         else
           (let path = rev (js_split CHR ''/'' notePath);
                path = (if ''root'' \<in> set path then path else path @ [''root''])
            in resolveNotePathToSegments_loop c path None []))"

text \<open>
  \<^verbatim>\<open>resolveNotePath\<close>: the inner \<open>None\<close> is \<^verbatim>\<open>null\<close>. An array is truthy, the empty
  one too.
\<close>

definition resolveNotePath :: "treeCache \<Rightarrow> string \<Rightarrow> string option option" where
  "resolveNotePath c notePath =
     (case resolveNotePathToSegments c notePath of
        None \<Rightarrow> None
      | Some (Inl e) \<Rightarrow> Some None
      | Some (Inr runPath) \<Rightarrow> Some (Some (js_join CHR ''/'' runPath)))"

section \<open>\<^verbatim>\<open>getNoteIdAndParentIdFromNotePath\<close>\<close>

record noteIdAndParentId =
  r_parentNoteId :: string
  r_noteId :: string

text \<open>
  The fields \<open>r_parentNoteId\<close> and \<open>r_noteId\<close> are the \<^verbatim>\<open>parentNoteId\<close> and the
  \<^verbatim>\<open>noteId\<close> of the returned object. The empty string is falsy.
\<close>

definition getNoteIdAndParentIdFromNotePath :: "string \<Rightarrow> noteIdAndParentId" where
  "getNoteIdAndParentIdFromNotePath notePath =
     (if notePath = ''root'' then \<lparr>r_parentNoteId = ''none'', r_noteId = ''root''\<rparr>
      else if notePath \<noteq> [] then
        (let path = js_split CHR ''/'' notePath;
             lastSegment = path ! (length path - 1)
         in \<lparr>r_parentNoteId = (if length path > 1 then path ! (length path - 2) else ''root''),
             r_noteId = hd (js_split CHR ''-'' lastSegment)\<rparr>)
      else \<lparr>r_parentNoteId = ''root'', r_noteId = []\<rparr>)"

section \<open>Branches of the cache\<close>

text \<open>
  The cache has a branch from a parent to a child when the child is a note of the
  cache and the parent is among its parent notes. A list of note ids in child-first
  order is a chain of branches when each element is a child of the next one.
\<close>

definition hasBranch :: "treeCache \<Rightarrow> string \<Rightarrow> string \<Rightarrow> bool" where
  "hasBranch c parentId childId \<longleftrightarrow>
     (case getNote c childId of
        None \<Rightarrow> False
      | Some child \<Rightarrow> list_ex (\<lambda>p. noteId p = parentId) (getParentNotes c child))"

fun branchChain :: "treeCache \<Rightarrow> string list \<Rightarrow> bool" where
  "branchChain c (childId # parentId # rest) \<longleftrightarrow>
     hasBranch c parentId childId \<and> branchChain c (parentId # rest)"
| "branchChain c [childId] \<longleftrightarrow> True"
| "branchChain c [] \<longleftrightarrow> True"

text \<open>
  The notes \<^verbatim>\<open>getSomeNotePath\<close> visits when it returns a path: each note but the last is
  not root and the next note is the first of its parent notes; the last note is root.
\<close>

fun firstParentWalk :: "treeCache \<Rightarrow> noteShort list \<Rightarrow> bool" where
  "firstParentWalk c (cur # next # rest) \<longleftrightarrow>
     noteId cur \<noteq> ''root'' \<and>
     (case getParentNotes c cur of [] \<Rightarrow> False | p # ps \<Rightarrow> p = next) \<and>
     firstParentWalk c (next # rest)"
| "firstParentWalk c [cur] \<longleftrightarrow> noteId cur = ''root''"
| "firstParentWalk c [] \<longleftrightarrow> False"

section \<open>Resolution while the cache is updated\<close>

text \<open>
  \<^verbatim>\<open>resolveNotePathToSegments\<close> is \<^verbatim>\<open>async\<close>: it is suspended at each
  \<^verbatim>\<open>await treeCache.getNote(childNoteId)\<close>, and a message applied in between changes
  the cache. Here \<open>cs k\<close> is the cache as it stands when the \<open>k\<close>-th \<^verbatim>\<open>await\<close> (counted
  from 0) resumes; the rest of that iteration, \<^verbatim>\<open>getSomeNotePath\<close> included, has no
  \<^verbatim>\<open>await\<close> and sees the same cache. The source takes no snapshot and has no retry.
\<close>

fun resolveNotePathToSegments_loop_at ::
  "(nat \<Rightarrow> treeCache) \<Rightarrow> nat \<Rightarrow> string list \<Rightarrow> string option \<Rightarrow> string list
     \<Rightarrow> (error + string list) option" where
  "resolveNotePathToSegments_loop_at cs k [] childNoteId effectivePath =
     Some (Inr (rev effectivePath))"
| "resolveNotePathToSegments_loop_at cs k (parentNoteId # rest) None effectivePath =
     resolveNotePathToSegments_loop_at cs k rest (Some parentNoteId)
       (effectivePath @ [parentNoteId])"
| "resolveNotePathToSegments_loop_at cs k (parentNoteId # rest) (Some childNoteId) effectivePath =
     (case getNote (cs k) childNoteId of
        None \<Rightarrow> Some (Inl (CantFindNote childNoteId))
      | Some child \<Rightarrow>
          (let parents = getParentNotes (cs k) child in
           if parents = [] then Some (Inl (NoParentsFound childNoteId))
           else if \<not> list_ex (\<lambda>p. noteId p = parentNoteId) parents then
             (case getSomeNotePath (cs k) (hd parents) of
                None \<Rightarrow> None
              | Some (Inl e) \<Rightarrow> Some (Inr (rev effectivePath))
              | Some (Inr someNotePath) \<Rightarrow>
                  (if someNotePath \<noteq> [] then
                     Some (Inr (rev (effectivePath @ rev (js_split CHR ''/'' someNotePath))))
                   else Some (Inr (rev effectivePath))))
           else resolveNotePathToSegments_loop_at cs (Suc k) rest (Some parentNoteId)
                  (effectivePath @ [parentNoteId])))"

definition resolveNotePathToSegments_at ::
  "(nat \<Rightarrow> treeCache) \<Rightarrow> string \<Rightarrow> (error + string list) option" where
  "resolveNotePathToSegments_at cs notePath0 =
     (let u = assertArguments notePath0;
          notePath = js_trim (hd (js_split CHR ''-'' notePath0))
      in if length notePath = 0 then Some (Inl EmptyNotePath)
         else
           (let path = rev (js_split CHR ''/'' notePath);
                path = (if ''root'' \<in> set path then path else path @ [''root''])
            in resolveNotePathToSegments_loop_at cs 0 path None []))"

text \<open>
  A chain of branches over the caches of the steps: the check of the \<open>k\<close>-th pair
  (counted from the child end) is against the cache of the \<open>k\<close>-th \<^verbatim>\<open>await\<close>.
\<close>

fun branchChain_at :: "(nat \<Rightarrow> treeCache) \<Rightarrow> nat \<Rightarrow> string list \<Rightarrow> bool" where
  "branchChain_at cs k (childId # parentId # rest) \<longleftrightarrow>
     hasBranch (cs k) parentId childId \<and> branchChain_at cs (Suc k) (parentId # rest)"
| "branchChain_at cs k [childId] \<longleftrightarrow> True"
| "branchChain_at cs k [] \<longleftrightarrow> True"

section \<open>Calls with \<^verbatim>\<open>utils.assertArguments\<close> as a parameter\<close>




section \<open>The message handler\<close>

text \<open>
  The handler \<^verbatim>\<open>tree.js\<close> subscribes with \<^verbatim>\<open>ws.subscribeToMessages\<close>. Its effects are
  calls of collaborators, so the state it passes on holds the tree cache, the
  arguments \<^verbatim>\<open>appContext.tabManager.activateOrOpenNote\<close> was called with, and how often
  the Electron window was shown; \<open>isElectron\<close> is what \<^verbatim>\<open>utils.isElectron()\<close> returns.
\<close>

record message =
  msg_type :: string
  msg_noteId :: string

record app =
  cache :: treeCache
  activateOrOpenNote_calls :: "string list"
  window_shows :: nat

definition onMessage :: "bool \<Rightarrow> message \<Rightarrow> app \<Rightarrow> app" where
  "onMessage isElectron m s =
     (if msg_type m = ''open-note'' then
        (let s1 = s\<lparr>activateOrOpenNote_calls := activateOrOpenNote_calls s @ [msg_noteId m]\<rparr>
         in if isElectron then s1\<lparr>window_shows := Suc (window_shows s1)\<rparr> else s1)
      else s)"

section \<open>Caches written as tables\<close>

text \<open>
  A finite cache from a table of rows (note id, ids of its parent notes in order):
  the notes of the cache are the first components.
\<close>

definition noteOf :: "string \<Rightarrow> noteShort" where
  "noteOf i = \<lparr>noteId = i, title = i\<rparr>"

definition cacheOf :: "(string \<times> string list) list \<Rightarrow> treeCache" where
  "cacheOf rows =
     \<lparr>getNote = (\<lambda>i. case map_of rows i of None \<Rightarrow> None | Some ps \<Rightarrow> Some (noteOf i)),
      getParentNotes = (\<lambda>n. case map_of rows (noteId n) of
                               None \<Rightarrow> [] | Some ps \<Rightarrow> map noteOf ps)\<rparr>"

text \<open>The scenario of the specification: branches root-A, root-C and A-B.\<close>

definition cache_before :: treeCache where
  "cache_before =
     cacheOf [(''root'', []), (''A'', [''root'']), (''C'', [''root'']), (''B'', [''A''])]"

text \<open>After branch A-B is deleted and branch C-B is created.\<close>

definition cache_after :: treeCache where
  "cache_after =
     cacheOf [(''root'', []), (''A'', [''root'']), (''C'', [''root'']), (''B'', [''C''])]"

text \<open>Notes A and B are each the first parent of the other.\<close>

definition cache_cycle :: treeCache where
  "cache_cycle = cacheOf [(''root'', []), (''A'', [''B'']), (''B'', [''A''])]"

text \<open>Note D is its own first parent.\<close>

definition cache_loop :: treeCache where
  "cache_loop = cacheOf [(''root'', []), (''D'', [''D''])]"

text \<open>The only parent of B is C, and C has no parent.\<close>

definition cache_orphan :: treeCache where
  "cache_orphan = cacheOf [(''root'', []), (''C'', []), (''B'', [''C''])]"

text \<open>A note whose id has a dash.\<close>

definition cache_dash :: treeCache where
  "cache_dash = cacheOf [(''root'', []), (''a-b'', [''root''])]"

text \<open>The only parent of B is X, and X and Y are each the first parent of the other.\<close>

definition cache_cycle_parent :: treeCache where
  "cache_cycle_parent =
     cacheOf [(''root'', []), (''A'', [''root'']), (''X'', [''Y'']), (''Y'', [''X'']),
              (''B'', [''X''])]"

text \<open>Branches root-Q, Q-A and A-B.\<close>

definition cache_under_Q :: treeCache where
  "cache_under_Q =
     cacheOf [(''root'', []), (''Q'', [''root'']), (''A'', [''Q'']), (''B'', [''A''])]"

text \<open>Branches root-Q, Q-A, root-C and C-B.\<close>

definition cache_moved :: treeCache where
  "cache_moved =
     cacheOf [(''root'', []), (''Q'', [''root'']), (''A'', [''Q'']), (''C'', [''root'']),
              (''B'', [''C''])]"

section \<open>Facts about the string operations\<close>

lemma js_split_nonempty: "js_split sep s \<noteq> []"
  by (induction s) (auto split: list.splits)

lemma hd_js_split: "hd (js_split sep s) = takeWhile (\<lambda>x. x \<noteq> sep) s"
  using js_split_nonempty[of sep] by (induction s) (auto split: list.splits)

lemma hd_js_split_suffix: "sep \<notin> set s \<Longrightarrow> hd (js_split sep (s @ sep # t)) = s"
  using js_split_nonempty[of sep] by (induction s) (auto split: list.splits)

lemma js_split_no_sep: "sep \<notin> set s \<Longrightarrow> js_split sep s = [s]"
  by (induction s) auto

lemma js_join_split: "js_join sep (js_split sep s) = s"
proof (induction s)
  case Nil
  then show ?case by simp
next
  case (Cons x s)
  then show ?case
    using js_split_nonempty[of sep s]
    by (cases "js_split sep s"; cases "tl (js_split sep s)") auto
qed

lemma js_split_seg: "sep \<notin> set seg \<Longrightarrow> js_split sep (seg @ sep # t) = seg # js_split sep t"
  using js_split_nonempty[of sep] by (induction seg) (auto split: list.splits)

lemma js_split_join:
  "segs \<noteq> [] \<Longrightarrow> \<forall>seg\<in>set segs. sep \<notin> set seg \<Longrightarrow> js_split sep (js_join sep segs) = segs"
proof (induction segs rule: js_join.induct)
  case (1 sep)
  then show ?case by simp
next
  case (2 sep seg)
  then show ?case by (simp add: js_split_no_sep)
next
  case (3 sep seg v va)
  then show ?case by (simp add: js_split_seg)
qed

lemma js_trim_id:
  assumes "s \<noteq> []" and "\<not> isWhiteSpace (hd s)" and "\<not> isWhiteSpace (last s)"
  shows "js_trim s = s"
proof -
  from assms have front: "dropWhile isWhiteSpace s = s"
    by (cases s) auto
  from assms have "rev s \<noteq> []" and "\<not> isWhiteSpace (hd (rev s))"
    by (auto simp: hd_rev)
  then have "dropWhile isWhiteSpace (rev s) = rev s"
    by (cases "rev s") auto
  with front show ?thesis
    by (simp add: js_trim_def)
qed

section \<open>Facts about the two loops\<close>

lemma getSomeNotePath_loop_root:
  "noteId cur = ''root'' \<Longrightarrow>
   getSomeNotePath_loop c cur path = Some (Inr (js_join CHR ''/'' (rev (path @ [''root'']))))"
  by (subst getSomeNotePath_loop.simps) simp

lemma getSomeNotePath_loop_orphan:
  "noteId cur \<noteq> ''root'' \<Longrightarrow> getParentNotes c cur = [] \<Longrightarrow>
   getSomeNotePath_loop c cur path = Some (Inl (CantFindParents (noteId cur)))"
  by (subst getSomeNotePath_loop.simps) simp

lemma getSomeNotePath_loop_step:
  "noteId cur \<noteq> ''root'' \<Longrightarrow> getParentNotes c cur = p # ps \<Longrightarrow>
   getSomeNotePath_loop c cur path = getSomeNotePath_loop c p (path @ [noteId cur])"
  by (subst getSomeNotePath_loop.simps) simp

text \<open>
  A set of notes that the walk along first parents cannot leave: when the loop returns,
  it did not start in such a set.
\<close>

lemma getSomeNotePath_loop_returns_outside:
  assumes r: "getSomeNotePath_loop c n path = Some r"
  shows "(\<forall>m\<in>S. noteId m \<noteq> ''root'' \<and> getParentNotes c m \<noteq> [] \<and> hd (getParentNotes c m) \<in> S)
           \<longrightarrow> n \<notin> S"
proof (rule getSomeNotePath_loop.raw_induct[where P = "\<lambda>c n path r.
         (\<forall>m\<in>S. noteId m \<noteq> ''root'' \<and> getParentNotes c m \<noteq> [] \<and> hd (getParentNotes c m) \<in> S)
           \<longrightarrow> n \<notin> S", OF _ r])
  fix f :: "treeCache \<Rightarrow> noteShort \<Rightarrow> string list \<Rightarrow> (error + string) option"
  fix c :: treeCache and cur :: noteShort and path :: "string list" and y :: "error + string"
  assume IH: "\<And>c cur path y. f c cur path = Some y \<Longrightarrow>
           (\<forall>m\<in>S. noteId m \<noteq> ''root'' \<and> getParentNotes c m \<noteq> [] \<and> hd (getParentNotes c m) \<in> S)
             \<longrightarrow> cur \<notin> S"
    and eq: "(if noteId cur \<noteq> ''root'' then
        (case getParentNotes c cur of
           [] \<Rightarrow> Some (Inl (CantFindParents (noteId cur)))
         | p # ps \<Rightarrow> f c p (path @ [noteId cur]))
      else Some (Inr (js_join CHR ''/'' (rev (path @ [''root'']))))) = Some y"
  show "(\<forall>m\<in>S. noteId m \<noteq> ''root'' \<and> getParentNotes c m \<noteq> [] \<and> hd (getParentNotes c m) \<in> S)
          \<longrightarrow> cur \<notin> S"
  proof (intro impI notI)
    assume S: "\<forall>m\<in>S. noteId m \<noteq> ''root'' \<and> getParentNotes c m \<noteq> [] \<and> hd (getParentNotes c m) \<in> S"
      and "cur \<in> S"
    then have cur: "noteId cur \<noteq> ''root''" "getParentNotes c cur \<noteq> []"
      "hd (getParentNotes c cur) \<in> S"
      by auto
    then obtain p ps where ps: "getParentNotes c cur = p # ps"
      by (cases "getParentNotes c cur") auto
    with eq cur have "f c p (path @ [noteId cur]) = Some y"
      by simp
    from IH[OF this] S have "p \<notin> S"
      by simp
    with cur ps show False
      by simp
  qed
qed

lemma getSomeNotePath_loop_diverges:
  assumes "\<forall>m\<in>S. noteId m \<noteq> ''root'' \<and> getParentNotes c m \<noteq> [] \<and> hd (getParentNotes c m) \<in> S"
    and "n \<in> S"
  shows "getSomeNotePath_loop c n path = None"
  using assms getSomeNotePath_loop_returns_outside[of c n path _ S]
  by (cases "getSomeNotePath_loop c n path") auto

text \<open>While the candidates are parents of the accepted child, the loop accepts them.\<close>

lemma resolveNotePathToSegments_loop_accepts:
  "branchChain c (ch # xs) \<Longrightarrow>
   resolveNotePathToSegments_loop c (xs @ ys) (Some ch) eff =
   resolveNotePathToSegments_loop c ys (Some (last (ch # xs))) (eff @ xs)"
proof (induction xs arbitrary: ch eff)
  case Nil
  then show ?case by simp
next
  case (Cons x xs)
  from Cons.prems have b: "hasBranch c x ch" and rest: "branchChain c (x # xs)"
    by auto
  from b obtain child where child: "getNote c ch = Some child"
    and ex: "list_ex (\<lambda>p. noteId p = x) (getParentNotes c child)"
    by (auto simp: hasBranch_def split: option.splits)
  from ex have ne: "getParentNotes c child \<noteq> []"
    by auto
  show ?case
    using child ex ne Cons.IH[OF rest, of "eff @ [x]"] by simp
qed

text \<open>
  What \<^verbatim>\<open>getSomeNotePath\<close> returns when it returns a path: the ids from root down to
  the note it started from, joined.
\<close>

lemma getSomeNotePath_loop_shape:
  assumes r: "getSomeNotePath_loop c n path = Some r"
  shows "\<forall>s. r = Inr s \<longrightarrow> (\<exists>ids. s = js_join CHR ''/'' (''root'' # ids @ rev path) \<and>
           (if noteId n = ''root'' then ids = [] else ids \<noteq> [] \<and> last ids = noteId n))"
proof (rule getSomeNotePath_loop.raw_induct[where P = "\<lambda>c n path r.
     \<forall>s. r = Inr s \<longrightarrow> (\<exists>ids. s = js_join CHR ''/'' (''root'' # ids @ rev path) \<and>
           (if noteId n = ''root'' then ids = [] else ids \<noteq> [] \<and> last ids = noteId n))", OF _ r])
  fix f :: "treeCache \<Rightarrow> noteShort \<Rightarrow> string list \<Rightarrow> (error + string) option"
  fix c :: treeCache and cur :: noteShort and path :: "string list" and y :: "error + string"
  assume IH: "\<And>c cur path y. f c cur path = Some y \<Longrightarrow>
     \<forall>s. y = Inr s \<longrightarrow> (\<exists>ids. s = js_join CHR ''/'' (''root'' # ids @ rev path) \<and>
           (if noteId cur = ''root'' then ids = [] else ids \<noteq> [] \<and> last ids = noteId cur))"
    and eq: "(if noteId cur \<noteq> ''root'' then
        (case getParentNotes c cur of
           [] \<Rightarrow> Some (Inl (CantFindParents (noteId cur)))
         | p # ps \<Rightarrow> f c p (path @ [noteId cur]))
      else Some (Inr (js_join CHR ''/'' (rev (path @ [''root'']))))) = Some y"
  show "\<forall>s. y = Inr s \<longrightarrow> (\<exists>ids. s = js_join CHR ''/'' (''root'' # ids @ rev path) \<and>
           (if noteId cur = ''root'' then ids = [] else ids \<noteq> [] \<and> last ids = noteId cur))"
  proof (intro allI impI)
    fix s assume y: "y = Inr s"
    show "\<exists>ids. s = js_join CHR ''/'' (''root'' # ids @ rev path) \<and>
           (if noteId cur = ''root'' then ids = [] else ids \<noteq> [] \<and> last ids = noteId cur)"
    proof (cases "noteId cur = ''root''")
      case True
      with eq y have "s = js_join CHR ''/'' (''root'' # [] @ rev path)" by simp
      with True show ?thesis by (intro exI[of _ "[]"]) simp
    next
      case False
      with eq y obtain p ps where ps: "getParentNotes c cur = p # ps"
        and f: "f c p (path @ [noteId cur]) = Some (Inr s)"
        by (cases "getParentNotes c cur") auto
      from IH[OF f] obtain ids where "s = js_join CHR ''/'' (''root'' # ids @ rev (path @ [noteId cur]))"
        by blast
      then have "s = js_join CHR ''/'' (''root'' # (ids @ [noteId cur]) @ rev path)" by simp
      with False show ?thesis by (intro exI[of _ "ids @ [noteId cur]"]) simp
    qed
  qed
qed

lemma js_join_root_nonempty: "js_join sep (''root'' # ids) \<noteq> []"
  by (cases ids) auto

lemma getSomeNotePath_shape:
  assumes "getSomeNotePath c n = Some (Inr s)"
  shows "\<exists>ids. s = js_join CHR ''/'' (''root'' # ids) \<and>
           (if noteId n = ''root'' then ids = [] else ids \<noteq> [] \<and> last ids = noteId n)"
  using getSomeNotePath_loop_shape[of c n "[]" "Inr s"] assms by (simp add: getSomeNotePath_def)

text \<open>Along a walk over first parents that ends at root, the loop returns its ids.\<close>

lemma getSomeNotePath_loop_walk:
  "firstParentWalk c (n # ns) \<Longrightarrow>
   getSomeNotePath_loop c n path =
     Some (Inr (js_join CHR ''/'' (rev (path @ map noteId (n # ns)))))"
proof (induction ns arbitrary: n path)
  case Nil
  then show ?case by (simp add: getSomeNotePath_loop_root)
next
  case (Cons m ns)
  from Cons.prems have n: "noteId n \<noteq> ''root''" and w: "firstParentWalk c (m # ns)"
    by auto
  from Cons.prems obtain ps where ps: "getParentNotes c n = m # ps"
    by (auto split: list.splits)
  show ?case
    using Cons.IH[OF w, of "path @ [noteId n]"] getSomeNotePath_loop_step[OF n ps, of path]
    by simp
qed

lemma getSomeNotePath_walk:
  "firstParentWalk c (n # ns) \<Longrightarrow>
   getSomeNotePath c n = Some (Inr (js_join CHR ''/'' (rev (map noteId (n # ns)))))"
  using getSomeNotePath_loop_walk[of c n ns "[]"] by (simp add: getSomeNotePath_def)

text \<open>While each candidate is a parent in the cache of its step, the loop accepts it.\<close>

lemma resolveNotePathToSegments_loop_at_accepts:
  "branchChain_at cs k (ch # xs) \<Longrightarrow>
   resolveNotePathToSegments_loop_at cs k xs (Some ch) eff = Some (Inr (rev (eff @ xs)))"
proof (induction xs arbitrary: k ch eff)
  case Nil
  then show ?case by simp
next
  case (Cons x xs)
  from Cons.prems have b: "hasBranch (cs k) x ch" and rest: "branchChain_at cs (Suc k) (x # xs)"
    by auto
  from b obtain child where child: "getNote (cs k) ch = Some child"
    and ex: "list_ex (\<lambda>p. noteId p = x) (getParentNotes (cs k) child)"
    by (auto simp: hasBranch_def split: option.splits)
  from ex have ne: "getParentNotes (cs k) child \<noteq> []"
    by auto
  show ?case
    using child ex ne Cons.IH[OF rest, of "eff @ [x]"] by simp
qed

text \<open>Over a cache that stays the same, the suspended loop is the plain loop.\<close>

lemma resolveNotePathToSegments_loop_at_const:
  "resolveNotePathToSegments_loop_at (\<lambda>k. c) k path childNoteId effectivePath =
   resolveNotePathToSegments_loop c path childNoteId effectivePath"
proof (induction path arbitrary: k childNoteId effectivePath)
  case Nil
  then show ?case by simp
next
  case (Cons parentNoteId rest)
  then show ?case
    by (cases childNoteId) (simp_all add: Let_def split: option.splits)
qed

section \<open>Orphans\<close>

text \<open>
  C5. A note whose identifier is not "root" and that has no parent notes makes
  \<^verbatim>\<open>getSomeNotePath\<close> return at once, with no path: the result is the failure that
  stands for the logged "Can't find parents for note" and the bare \<^verbatim>\<open>return;\<close>.
\<close>

theorem getSomeNotePath_orphan:
  assumes "noteId n \<noteq> ''root''" and "getParentNotes c n = []"
  shows "getSomeNotePath c n = Some (Inl (CantFindParents (noteId n)))"
  using assms by (simp add: getSomeNotePath_def getSomeNotePath_loop.simps)

theorem getSomeNotePath_orphan_witness:
  "noteId (noteOf ''C'') \<noteq> ''root'' \<and> getParentNotes cache_orphan (noteOf ''C'') = [] \<and>
   getSomeNotePath cache_orphan (noteOf ''C'') = Some (Inl (CantFindParents ''C''))"
  using getSomeNotePath_orphan[of "noteOf ''C''" cache_orphan]
  by (simp add: cache_orphan_def cacheOf_def noteOf_def)

section \<open>Cycles\<close>

text \<open>
  C2, as the code has it. \<^verbatim>\<open>getSomeNotePath\<close> keeps no set of visited notes. Started on
  a note of a set of notes, none of them root, in which every note has a parent and
  its first parent is in the set again (a cycle along first parents is such a set), the
  call does not return: neither a path nor a failure.
\<close>

theorem getSomeNotePath_cycle_no_return:
  assumes "\<forall>m\<in>S. noteId m \<noteq> ''root'' \<and> getParentNotes c m \<noteq> [] \<and> hd (getParentNotes c m) \<in> S"
    and "n \<in> S"
  shows "getSomeNotePath c n = None"
  unfolding getSomeNotePath_def using assms by (rule getSomeNotePath_loop_diverges)

theorem getSomeNotePath_cycle_no_return_witness:
  "noteId (noteOf ''D'') \<noteq> ''root'' \<and>
   getParentNotes cache_loop (noteOf ''D'') = [noteOf ''D''] \<and>
   getSomeNotePath cache_loop (noteOf ''D'') = None"
proof -
  have h: "\<forall>m\<in>{noteOf ''D''}. noteId m \<noteq> ''root'' \<and> getParentNotes cache_loop m \<noteq> [] \<and>
      hd (getParentNotes cache_loop m) \<in> {noteOf ''D''}"
    by (simp add: cache_loop_def cacheOf_def noteOf_def)
  have "getSomeNotePath cache_loop (noteOf ''D'') = None"
    using getSomeNotePath_cycle_no_return[OF h, of "noteOf ''D''"] by simp
  then show ?thesis
    by (simp add: cache_loop_def cacheOf_def noteOf_def)
qed

text \<open>
  The property as the specification states it fails on the cycle of A and B, where each note is the first
  parent of the other: the call on A has no result, so it is not a failure result.
\<close>

theorem getSomeNotePath_cycle_counterexample:
  "hd (getParentNotes cache_cycle (noteOf ''A'')) = noteOf ''B'' \<and>
   hd (getParentNotes cache_cycle (noteOf ''B'')) = noteOf ''A'' \<and>
   getSomeNotePath cache_cycle (noteOf ''A'') = None"
proof -
  have "\<forall>m\<in>{noteOf ''A'', noteOf ''B''}. noteId m \<noteq> ''root'' \<and>
      getParentNotes cache_cycle m \<noteq> [] \<and>
      hd (getParentNotes cache_cycle m) \<in> {noteOf ''A'', noteOf ''B''}"
    by (simp add: cache_cycle_def cacheOf_def noteOf_def)
  then have "getSomeNotePath_loop cache_cycle (noteOf ''A'') [] = None"
    by (rule getSomeNotePath_loop_diverges) simp
  then show ?thesis
    by (simp add: getSomeNotePath_def cache_cycle_def cacheOf_def noteOf_def)
qed

section \<open>Root first\<close>

text \<open>
  Two facts about the loop: a returned sequence ends with the first accepted segment,
  and it starts at root when root has no parent and the fallback never fails.
\<close>

lemma hd_js_split_join_root: "hd (js_split CHR ''/'' (js_join CHR ''/'' (''root'' # ids))) = ''root''"
  by (cases ids) (simp_all add: hd_js_split)

lemma resolveNotePathToSegments_loop_last:
  "resolveNotePathToSegments_loop c path (Some ch) eff = Some (Inr segs) \<Longrightarrow> eff \<noteq> [] \<Longrightarrow>
   last segs = hd eff"
proof (induction path arbitrary: ch eff)
  case Nil
  then show ?case by (auto simp: last_rev)
next
  case (Cons p rest)
  then show ?case
    by (auto simp: Let_def last_rev split: option.splits if_splits sum.splits)
qed

lemma resolveNotePathToSegments_loop_root_first:
  assumes root: "\<And>n. getNote c ''root'' = Some n \<Longrightarrow> getParentNotes c n = []"
    and found: "\<And>i n e. getNote c i = Some n \<Longrightarrow> getParentNotes c n \<noteq> [] \<Longrightarrow>
       getSomeNotePath c (hd (getParentNotes c n)) \<noteq> Some (Inl e)"
  shows "resolveNotePathToSegments_loop c path (Some ch) eff = Some (Inr segs) \<Longrightarrow>
     eff \<noteq> [] \<Longrightarrow> last eff = ch \<Longrightarrow> ''root'' \<in> set (ch # path) \<Longrightarrow> hd segs = ''root''"
proof (induction path arbitrary: ch eff)
  case Nil
  then show ?case by (auto simp: hd_rev)
next
  case (Cons p rest)
  from Cons.prems(1) obtain child where child: "getNote c ch = Some child"
    by (auto split: option.splits)
  with Cons.prems(1) have ne: "getParentNotes c child \<noteq> []"
    by (auto simp: Let_def split: if_splits)
  with child root have ch: "ch \<noteq> ''root''" by auto
  with Cons.prems(4) have inr: "''root'' \<in> set (p # rest)" by auto
  show ?case
  proof (cases "list_ex (\<lambda>q. noteId q = p) (getParentNotes c child)")
    case True
    with child ne Cons.prems(1)
    have "resolveNotePathToSegments_loop c rest (Some p) (eff @ [p]) = Some (Inr segs)"
      by (simp add: Let_def)
    from Cons.IH[OF this _ _ inr] show ?thesis by simp
  next
    case False
    with child ne Cons.prems(1) found[OF child ne]
    obtain s where s: "getSomeNotePath c (hd (getParentNotes c child)) = Some (Inr s)"
      and segs: "segs = (if s \<noteq> [] then rev (eff @ rev (js_split CHR ''/'' s)) else rev eff)"
      by (auto simp: Let_def split: option.splits sum.splits if_splits)
    from getSomeNotePath_shape[OF s] obtain ids where ids: "s = js_join CHR ''/'' (''root'' # ids)"
      by blast
    then have "s \<noteq> []" by (simp add: js_join_root_nonempty)
    with segs ids show ?thesis
      using js_split_nonempty[of "CHR ''/''" s] by (simp add: hd_js_split_join_root)
  qed
qed

text \<open>
  In a cache where root has no parent notes and \<^verbatim>\<open>getSomeNotePath\<close> fails for no first
  parent of a note, every sequence \<^verbatim>\<open>resolveNotePathToSegments\<close> returns starts at root
  and ends at the last segment of the input. \<open>cache_after\<close> is such a cache.
\<close>

lemma resolveNotePathToSegments_root_first:
  assumes root: "\<And>n. getNote c ''root'' = Some n \<Longrightarrow> getParentNotes c n = []"
    and found: "\<And>i n e. getNote c i = Some n \<Longrightarrow> getParentNotes c n \<noteq> [] \<Longrightarrow>
       getSomeNotePath c (hd (getParentNotes c n)) \<noteq> Some (Inl e)"
    and res: "resolveNotePathToSegments c notePath = Some (Inr segs)"
  shows "hd segs = ''root'' \<and>
         last segs = last (js_split CHR ''/'' (js_trim (hd (js_split CHR ''-'' notePath))))"
proof -
  let ?np = "js_trim (hd (js_split CHR ''-'' notePath))"
  let ?path = "rev (js_split CHR ''/'' ?np)"
  let ?path' = "if ''root'' \<in> set ?path then ?path else ?path @ [''root'']"
  from res have loop: "resolveNotePathToSegments_loop c ?path' None [] = Some (Inr segs)"
    by (simp add: resolveNotePathToSegments_def Let_def split: if_splits)
  have "?path \<noteq> []" using js_split_nonempty[of "CHR ''/''" ?np] by simp
  then obtain a as where as: "?path = a # as" by (cases ?path) auto
  then have as': "?path' = a # (if ''root'' \<in> set ?path then as else as @ [''root''])"
    by simp
  let ?rest = "if ''root'' \<in> set ?path then as else as @ [''root'']"
  from loop have l2: "resolveNotePathToSegments_loop c ?rest (Some a) [a] = Some (Inr segs)"
    unfolding as' by simp
  have "''root'' \<in> set (a # ?rest)" using as by auto
  with l2 have "hd segs = ''root''"
    using resolveNotePathToSegments_loop_root_first[of c ?rest a "[a]" segs] root found
    by simp
  moreover from l2 have "last segs = a"
    using resolveNotePathToSegments_loop_last[of c ?rest a "[a]" segs] by simp
  moreover from as have "last (js_split CHR ''/'' ?np) = a"
    by (metis hd_rev list.sel(1))
  ultimately show ?thesis by simp
qed

lemma cache_after_root_first:
  "resolveNotePathToSegments cache_after notePath = Some (Inr segs) \<Longrightarrow> hd segs = ''root''"
proof -
  assume res: "resolveNotePathToSegments cache_after notePath = Some (Inr segs)"
  have root: "\<And>n. getNote cache_after ''root'' = Some n \<Longrightarrow> getParentNotes cache_after n = []"
    by (auto simp: cache_after_def cacheOf_def noteOf_def)
  have found: "\<And>i n e. getNote cache_after i = Some n \<Longrightarrow> getParentNotes cache_after n \<noteq> [] \<Longrightarrow>
       getSomeNotePath cache_after (hd (getParentNotes cache_after n)) \<noteq> Some (Inl e)"
    by (auto simp: cache_after_def cacheOf_def noteOf_def getSomeNotePath_def
        getSomeNotePath_loop_root getSomeNotePath_loop_step split: if_splits)
  from resolveNotePathToSegments_root_first[OF root found res] show ?thesis by simp
qed

text \<open>
  C3 at the input where the code departs from it. In \<open>cache_orphan\<close> the walk for
  "root/A/B" accepts B and breaks at A, the fallback through C, the first parent of B,
  finds no parent of C, and \<^verbatim>\<open>resolveNotePathToSegments\<close> still returns a sequence: the
  accepted segment B alone, which does not start at root.
\<close>

theorem resolveNotePathToSegments_orphan_parent:
  "resolveNotePathToSegments cache_orphan ''root/A/B'' = Some (Inr [''B''])"
  by (simp add: cache_orphan_def resolveNotePathToSegments_def assertArguments_def js_trim_def
      isWhiteSpace_def cacheOf_def noteOf_def getSomeNotePath_def getSomeNotePath_loop_orphan)

section \<open>Repair\<close>

text \<open>
  C1, as the code has it. Let the walk over the reversed path accept the segments
  \<open>accepted\<close> (child first), and let the next segment \<open>candidate\<close> not be a parent of
  the last accepted note, whose first parent is \<open>firstParent\<close>. If the walk over first
  parents from \<open>firstParent\<close> ends at root, through notes with no slash in their ids,
  then the result is the ids of that walk from root down to \<open>firstParent\<close>, followed
  by the accepted segments as they are. Neither \<open>candidate\<close> nor the segments
  \<open>beyond\<close> it are looked at. In the scenario of the specification "root/A/B"
  resolves to "root/C/B".
\<close>

theorem resolveNotePathToSegments_repair:
  assumes "notePath = js_trim (hd (js_split CHR ''-'' notePath0))" and "notePath \<noteq> []"
    and "path = rev (js_split CHR ''/'' notePath)"
    and "(if ''root'' \<in> set path then path else path @ [''root'']) = accepted @ candidate # beyond"
    and "accepted \<noteq> []" and "branchChain c accepted"
    and "getNote c (last accepted) = Some child"
    and "getParentNotes c child = firstParent # otherParents"
    and "\<not> list_ex (\<lambda>p. noteId p = candidate) (firstParent # otherParents)"
    and "firstParentWalk c (firstParent # visited)"
    and "\<forall>n\<in>set (firstParent # visited). CHR ''/'' \<notin> set (noteId n)"
  shows "resolveNotePathToSegments c notePath0 =
           Some (Inr (rev (map noteId (firstParent # visited)) @ rev accepted))"
proof -
  let ?ids = "rev (map noteId (firstParent # visited))"
  let ?some = "js_join CHR ''/'' ?ids"
  from assms(5) obtain a as where acc: "accepted = a # as"
    by (cases accepted) auto
  have some: "getSomeNotePath c firstParent = Some (Inr ?some)"
    using assms(10) by (rule getSomeNotePath_walk)
  have split: "js_split CHR ''/'' ?some = ?ids"
    using assms(11) by (intro js_split_join) auto
  have ne: "?some \<noteq> []"
  proof
    assume "?some = []"
    then have "js_split CHR ''/'' ?some = [[]]" by simp
    with split have "?ids = [[]]" by simp
    then have "map noteId (firstParent # visited) = [[]]"
      by (metis rev_singleton_conv)
    then have "visited = []" and "noteId firstParent = []" by auto
    with assms(10) show False by simp
  qed
  have "resolveNotePathToSegments c notePath0 =
        resolveNotePathToSegments_loop c
          (if ''root'' \<in> set path then path else path @ [''root'']) None []"
    unfolding resolveNotePathToSegments_def Let_def assms(1)[symmetric] assms(3)[symmetric]
    using assms(2) by simp
  also have "\<dots> = resolveNotePathToSegments_loop c (accepted @ candidate # beyond) None []"
    by (simp only: assms(4))
  also have "\<dots> = resolveNotePathToSegments_loop c (as @ candidate # beyond) (Some a) [a]"
    by (simp add: acc)
  also have "\<dots> =
      resolveNotePathToSegments_loop c (candidate # beyond) (Some (last accepted)) accepted"
    using resolveNotePathToSegments_loop_accepts[of c a as "candidate # beyond" "[a]"] assms(6)
    by (simp add: acc)
  also have "\<dots> = Some (Inr (rev (accepted @ rev (js_split CHR ''/'' ?some))))"
    using assms(7-9) some ne by simp
  finally show ?thesis
    by (simp only: split rev_append rev_rev_ident)
qed

theorem resolveNotePathToSegments_repair_witness:
  "resolveNotePathToSegments cache_after ''root/A/B'' = Some (Inr [''root'', ''C'', ''B'']) \<and>
   resolveNotePath cache_after ''root/A/B'' = Some (Some ''root/C/B'') \<and>
   resolveNotePath cache_before ''root/A/B'' = Some (Some ''root/A/B'')"
proof -
  have 1: "''root/A/B'' = js_trim (hd (js_split CHR ''-'' ''root/A/B''))"
    by (simp add: js_trim_def isWhiteSpace_def)
  have 3: "[''B'', ''A'', ''root''] = rev (js_split CHR ''/'' ''root/A/B'')"
    by simp
  have 4: "(if ''root'' \<in> set [''B'', ''A'', ''root''] then [''B'', ''A'', ''root'']
            else [''B'', ''A'', ''root''] @ [''root'']) = [''B''] @ ''A'' # [''root'']"
    by simp
  have 7: "getNote cache_after (last [''B'']) = Some (noteOf ''B'')"
    by (simp add: cache_after_def cacheOf_def)
  have 8: "getParentNotes cache_after (noteOf ''B'') = noteOf ''C'' # []"
    by (simp add: cache_after_def cacheOf_def noteOf_def)
  have 9: "\<not> list_ex (\<lambda>p. noteId p = ''A'') (noteOf ''C'' # [])"
    by (simp add: noteOf_def)
  have 10: "firstParentWalk cache_after (noteOf ''C'' # [noteOf ''root''])"
    by (simp add: cache_after_def cacheOf_def noteOf_def)
  have 11: "\<forall>n\<in>set (noteOf ''C'' # [noteOf ''root'']). CHR ''/'' \<notin> set (noteId n)"
    by (simp add: noteOf_def)
  have r: "resolveNotePathToSegments cache_after ''root/A/B'' = Some (Inr [''root'', ''C'', ''B''])"
    using resolveNotePathToSegments_repair[OF 1 _ 3 4 _ _ 7 8 9 10 11] by (simp add: noteOf_def)
  moreover have "resolveNotePath cache_before ''root/A/B'' = Some (Some ''root/A/B'')"
    by (simp add: cache_before_def resolveNotePath_def resolveNotePathToSegments_def
        assertArguments_def js_trim_def isWhiteSpace_def cacheOf_def noteOf_def)
  ultimately show ?thesis
    by (simp add: resolveNotePath_def)
qed

text \<open>
  The property as the specification states it fails where the first parent is on a
  cycle of first parents: in \<open>cache_cycle_parent\<close> the walk for "root/A/B" accepts B
  and breaks at A, the fallback through X does not return, and there is no result.
\<close>

theorem resolveNotePathToSegments_repair_counterexample:
  "getNote cache_cycle_parent ''B'' = Some (noteOf ''B'') \<and>
   getParentNotes cache_cycle_parent (noteOf ''B'') = [noteOf ''X''] \<and>
   resolveNotePathToSegments cache_cycle_parent ''root/A/B'' = None"
proof -
  have "\<forall>m\<in>{noteOf ''X'', noteOf ''Y''}. noteId m \<noteq> ''root'' \<and>
      getParentNotes cache_cycle_parent m \<noteq> [] \<and>
      hd (getParentNotes cache_cycle_parent m) \<in> {noteOf ''X'', noteOf ''Y''}"
    by (simp add: cache_cycle_parent_def cacheOf_def noteOf_def)
  then have "getSomeNotePath_loop cache_cycle_parent (noteOf ''X'') [] = None"
    by (rule getSomeNotePath_loop_diverges) simp
  then have x: "getSomeNotePath cache_cycle_parent \<lparr>noteId = ''X'', title = ''X''\<rparr> = None"
    by (simp add: getSomeNotePath_def noteOf_def)
  have b: "getNote cache_cycle_parent ''B'' = Some \<lparr>noteId = ''B'', title = ''B''\<rparr>"
    "getParentNotes cache_cycle_parent \<lparr>noteId = ''B'', title = ''B''\<rparr> =
       [\<lparr>noteId = ''X'', title = ''X''\<rparr>]"
    by (simp_all add: cache_cycle_parent_def cacheOf_def noteOf_def)
  show ?thesis
    using x b
    by (simp add: resolveNotePathToSegments_def assertArguments_def js_trim_def
        isWhiteSpace_def noteOf_def)
qed

section \<open>Idempotence\<close>

text \<open>
  C4, as the code has it. A path string with no dash and with no white space at its
  ends, whose first segment is root and in which each segment is a child of the one
  before it in the cache, resolves to itself.
\<close>

theorem resolveNotePath_idempotent:
  assumes root: "hd (js_split CHR ''/'' notePath) = ''root''"
    and chain: "branchChain c (rev (js_split CHR ''/'' notePath))"
    and dash: "CHR ''-'' \<notin> set notePath"
    and ws: "\<not> isWhiteSpace (hd notePath)" "\<not> isWhiteSpace (last notePath)"
  shows "resolveNotePath c notePath = Some (Some notePath)"
proof -
  let ?segs = "js_split CHR ''/'' notePath"
  from root have ne: "notePath \<noteq> []" by auto
  have strip: "js_trim (hd (js_split CHR ''-'' notePath)) = notePath"
    using dash ne ws by (simp add: js_split_no_sep js_trim_id)
  have segs: "?segs \<noteq> []" by (rule js_split_nonempty)
  with root have inc: "''root'' \<in> set (rev ?segs)"
    by (cases ?segs) auto
  from segs obtain a as where rv: "rev ?segs = a # as"
    by (cases "rev ?segs") auto
  have "resolveNotePathToSegments_loop c (rev ?segs) None [] =
        resolveNotePathToSegments_loop c (as @ []) (Some a) [a]"
    by (simp add: rv)
  also have "\<dots> = resolveNotePathToSegments_loop c [] (Some (last (a # as))) ([a] @ as)"
    using chain unfolding rv by (rule resolveNotePathToSegments_loop_accepts)
  also have "\<dots> = Some (Inr (rev (a # as)))"
    by simp
  also have "rev (a # as) = ?segs"
    unfolding rv[symmetric] by (rule rev_rev_ident)
  finally have "resolveNotePathToSegments c notePath = Some (Inr ?segs)"
    using strip ne inc by (simp add: resolveNotePathToSegments_def Let_def)
  then show ?thesis
    by (simp add: resolveNotePath_def js_join_split)
qed

theorem resolveNotePath_idempotent_witness:
  "hd (js_split CHR ''/'' ''root/A/B'') = ''root'' \<and>
   branchChain cache_before (rev (js_split CHR ''/'' ''root/A/B'')) \<and>
   CHR ''-'' \<notin> set ''root/A/B'' \<and>
   \<not> isWhiteSpace (hd ''root/A/B'') \<and> \<not> isWhiteSpace (last ''root/A/B'') \<and>
   resolveNotePath cache_before ''root/A/B'' = Some (Some ''root/A/B'')"
proof -
  have 1: "hd (js_split CHR ''/'' ''root/A/B'') = ''root''" by simp
  have 2: "branchChain cache_before (rev (js_split CHR ''/'' ''root/A/B''))"
    by (simp add: hasBranch_def cache_before_def cacheOf_def noteOf_def)
  have 3: "CHR ''-'' \<notin> set ''root/A/B''" by simp
  have 4: "\<not> isWhiteSpace (hd ''root/A/B'')" by (simp add: isWhiteSpace_def)
  have 5: "\<not> isWhiteSpace (last ''root/A/B'')" by (simp add: isWhiteSpace_def)
  from 1 2 3 4 5 resolveNotePath_idempotent[OF 1 2 3 4 5] show ?thesis by blast
qed

text \<open>
  The property as the specification states it fails for a path through a note whose id has a dash: the
  branch from root to "a-b" is in \<open>cache_dash\<close>, and "root/a-b" is cut at the dash and
  resolves to \<^verbatim>\<open>null\<close>.
\<close>

theorem resolveNotePath_idempotent_counterexample:
  "hd (js_split CHR ''/'' ''root/a-b'') = ''root'' \<and>
   branchChain cache_dash (rev (js_split CHR ''/'' ''root/a-b'')) \<and>
   resolveNotePath cache_dash ''root/a-b'' = Some None"
  by (simp add: hasBranch_def cache_dash_def cacheOf_def noteOf_def resolveNotePath_def
      resolveNotePathToSegments_def assertArguments_def js_trim_def isWhiteSpace_def)

section \<open>Updates during a resolution\<close>

text \<open>When the cache is the same at every step, the result is that of the plain resolution.\<close>

lemma resolveNotePathToSegments_at_unchanged:
  "resolveNotePathToSegments_at (\<lambda>k. c) notePath = resolveNotePathToSegments c notePath"
  by (simp add: resolveNotePathToSegments_at_def resolveNotePathToSegments_def Let_def
      resolveNotePathToSegments_loop_at_const)

text \<open>
  C6, as the code has it. The resolution is one pass in which each check reads the
  cache as it stands when its \<^verbatim>\<open>await\<close> resumes, and an update in between leads to
  no retry and no failure. For a path string with no dash and no white space at its
  ends that begins at root: if, counted from the child end, the \<open>k\<close>-th pair of
  segments is a branch of the cache of the \<open>k\<close>-th \<^verbatim>\<open>await\<close>, the segments of the
  input are returned as they are. In the instance below branch A-B is only in the
  first cache and branch root-A only in the second, and each cache alone resolves
  "root/A/B" to another path.
\<close>

theorem resolveNotePathToSegments_at_steps:
  assumes root: "hd (js_split CHR ''/'' notePath) = ''root''"
    and chain: "branchChain_at cs 0 (rev (js_split CHR ''/'' notePath))"
    and dash: "CHR ''-'' \<notin> set notePath"
    and ws: "\<not> isWhiteSpace (hd notePath)" "\<not> isWhiteSpace (last notePath)"
  shows "resolveNotePathToSegments_at cs notePath = Some (Inr (js_split CHR ''/'' notePath))"
proof -
  let ?segs = "js_split CHR ''/'' notePath"
  from root have ne: "notePath \<noteq> []" by auto
  have strip: "js_trim (hd (js_split CHR ''-'' notePath)) = notePath"
    using dash ne ws by (simp add: js_split_no_sep js_trim_id)
  have segs: "?segs \<noteq> []" by (rule js_split_nonempty)
  with root have inc: "''root'' \<in> set (rev ?segs)"
    by (cases ?segs) auto
  from segs obtain a as where rv: "rev ?segs = a # as"
    by (cases "rev ?segs") auto
  have "resolveNotePathToSegments_loop_at cs 0 (rev ?segs) None [] =
        resolveNotePathToSegments_loop_at cs 0 as (Some a) [a]"
    by (simp add: rv)
  also have "\<dots> = Some (Inr (rev ([a] @ as)))"
    using chain unfolding rv by (rule resolveNotePathToSegments_loop_at_accepts)
  also have "rev ([a] @ as) = ?segs"
    using rv by (metis append_Cons append_Nil rev_rev_ident)
  finally show ?thesis
    using strip ne inc by (simp add: resolveNotePathToSegments_at_def Let_def)
qed

theorem resolveNotePathToSegments_at_steps_witness:
  "resolveNotePathToSegments_at (\<lambda>k. if k = 0 then cache_under_Q else cache_after) ''root/A/B'' =
     Some (Inr [''root'', ''A'', ''B'']) \<and>
   resolveNotePathToSegments cache_under_Q ''root/A/B'' = Some (Inr [''root'', ''Q'', ''A'', ''B'']) \<and>
   resolveNotePathToSegments cache_after ''root/A/B'' = Some (Inr [''root'', ''C'', ''B''])"
proof -
  let ?cs = "\<lambda>k::nat. if k = 0 then cache_under_Q else cache_after"
  have 1: "hd (js_split CHR ''/'' ''root/A/B'') = ''root''" by simp
  have 2: "branchChain_at ?cs 0 (rev (js_split CHR ''/'' ''root/A/B''))"
    by (simp add: hasBranch_def cache_under_Q_def cache_after_def cacheOf_def noteOf_def)
  have 3: "CHR ''-'' \<notin> set ''root/A/B''" by simp
  have 4: "\<not> isWhiteSpace (hd ''root/A/B'')" by (simp add: isWhiteSpace_def)
  have 5: "\<not> isWhiteSpace (last ''root/A/B'')" by (simp add: isWhiteSpace_def)
  have "resolveNotePathToSegments_at ?cs ''root/A/B'' = Some (Inr [''root'', ''A'', ''B''])"
    using resolveNotePathToSegments_at_steps[OF 1 2 3 4 5] by simp
  moreover have "resolveNotePathToSegments cache_under_Q ''root/A/B'' =
      Some (Inr [''root'', ''Q'', ''A'', ''B''])"
    by (simp add: cache_under_Q_def resolveNotePathToSegments_def assertArguments_def
        js_trim_def isWhiteSpace_def getSomeNotePath_def getSomeNotePath_loop_step
        getSomeNotePath_loop_root cacheOf_def noteOf_def)
  moreover have "resolveNotePathToSegments cache_after ''root/A/B'' =
      Some (Inr [''root'', ''C'', ''B''])"
    by (simp add: cache_after_def resolveNotePathToSegments_def assertArguments_def
        js_trim_def isWhiteSpace_def getSomeNotePath_def getSomeNotePath_loop_step
        getSomeNotePath_loop_root cacheOf_def noteOf_def)
  ultimately show ?thesis by simp
qed

text \<open>
  The property as the specification states it fails when the cache changes from
  \<open>cache_before\<close> to \<open>cache_moved\<close> after the first \<^verbatim>\<open>await\<close>: a resolution of
  "root/A/B" run again from the beginning would see \<open>cache_moved\<close> alone and give
  root, C, B; the code gives root, Q, A, B, which is the result for neither cache, and
  no failure.
\<close>

theorem resolveNotePathToSegments_at_counterexample:
  "resolveNotePathToSegments_at (\<lambda>k. if k = 0 then cache_before else cache_moved) ''root/A/B'' =
     Some (Inr [''root'', ''Q'', ''A'', ''B'']) \<and>
   resolveNotePathToSegments cache_before ''root/A/B'' = Some (Inr [''root'', ''A'', ''B'']) \<and>
   resolveNotePathToSegments cache_moved ''root/A/B'' = Some (Inr [''root'', ''C'', ''B''])"
  by (simp add: cache_before_def cache_moved_def cacheOf_def noteOf_def
      resolveNotePathToSegments_at_def
      resolveNotePathToSegments_def assertArguments_def js_trim_def isWhiteSpace_def
      getSomeNotePath_def getSomeNotePath_loop_step getSomeNotePath_loop_root)

section \<open>Bad input\<close>




section \<open>The tab suffix\<close>

text \<open>
  C8. A dash and whatever follows it, appended to a path string with no dash, changes
  nothing: \<^verbatim>\<open>resolveNotePath\<close> gives the same result with and without it, so
  "root/A/B-xyz1" resolves as "root/A/B" does.
\<close>

theorem resolveNotePath_suffix:
  assumes "CHR ''-'' \<notin> set notePath"
  shows "resolveNotePath c (notePath @ CHR ''-'' # tabId) = resolveNotePath c notePath"
  using assms
  by (simp add: resolveNotePath_def resolveNotePathToSegments_def hd_js_split_suffix
      js_split_no_sep)

theorem resolveNotePath_suffix_witness:
  "CHR ''-'' \<notin> set ''root/A/B'' \<and>
   resolveNotePath cache_after ''root/A/B-xyz1'' = resolveNotePath cache_after ''root/A/B''"
  using resolveNotePath_suffix[of "''root/A/B''" cache_after "''xyz1''"] by simp

section \<open>Open note\<close>

text \<open>
  C9. On a message of type "open-note" the handler calls
  \<^verbatim>\<open>activateOrOpenNote\<close> with the note id of the message, once, and leaves the tree cache
  as it was.
\<close>

theorem onMessage_open_note:
  assumes "msg_type m = ''open-note''"
  shows "activateOrOpenNote_calls (onMessage isElectron m s) =
           activateOrOpenNote_calls s @ [msg_noteId m] \<and>
         cache (onMessage isElectron m s) = cache s"
  using assms by (simp add: onMessage_def Let_def)

theorem onMessage_open_note_witness:
  "msg_type \<lparr>msg_type = ''open-note'', msg_noteId = ''B''\<rparr> = ''open-note'' \<and>
   activateOrOpenNote_calls
     (onMessage True \<lparr>msg_type = ''open-note'', msg_noteId = ''B''\<rparr>
        \<lparr>cache = cache_after, activateOrOpenNote_calls = [], window_shows = 0\<rparr>) = [''B''] \<and>
   cache
     (onMessage True \<lparr>msg_type = ''open-note'', msg_noteId = ''B''\<rparr>
        \<lparr>cache = cache_after, activateOrOpenNote_calls = [], window_shows = 0\<rparr>) = cache_after"
  using onMessage_open_note[of "\<lparr>msg_type = ''open-note'', msg_noteId = ''B''\<rparr>" True
      "\<lparr>cache = cache_after, activateOrOpenNote_calls = [], window_shows = 0\<rparr>"]
  by simp

section \<open>Note id and parent id of a path\<close>

text \<open>
  C10. \<^verbatim>\<open>getNoteIdAndParentIdFromNotePath\<close> gives note id "root" and parent id "none"
  for "root"; parent id "root" for every other non-empty path of one segment; and in
  all cases the note id is the last segment up to its first dash.
\<close>

theorem getNoteIdAndParentIdFromNotePath_cases:
  "(notePath = ''root'' \<longrightarrow>
      getNoteIdAndParentIdFromNotePath notePath =
        \<lparr>r_parentNoteId = ''none'', r_noteId = ''root''\<rparr>) \<and>
   (notePath \<noteq> [] \<and> CHR ''/'' \<notin> set notePath \<and> notePath \<noteq> ''root'' \<longrightarrow>
      r_parentNoteId (getNoteIdAndParentIdFromNotePath notePath) = ''root'') \<and>
   r_noteId (getNoteIdAndParentIdFromNotePath notePath) =
     takeWhile (\<lambda>ch. ch \<noteq> CHR ''-'') (last (js_split CHR ''/'' notePath))"
  using js_split_nonempty[of "CHR ''/''" notePath]
  by (auto simp: getNoteIdAndParentIdFromNotePath_def Let_def hd_js_split js_split_no_sep
      last_conv_nth)

theorem getNoteIdAndParentIdFromNotePath_cases_witness:
  "getNoteIdAndParentIdFromNotePath ''root'' =
     \<lparr>r_parentNoteId = ''none'', r_noteId = ''root''\<rparr> \<and>
   r_parentNoteId (getNoteIdAndParentIdFromNotePath ''B-xyz1'') = ''root'' \<and>
   r_noteId (getNoteIdAndParentIdFromNotePath ''B-xyz1'') = ''B''"
  using getNoteIdAndParentIdFromNotePath_cases[of "''root''"]
    getNoteIdAndParentIdFromNotePath_cases[of "''B-xyz1''"]
  by simp

end
